theory Spec2Isabelle
  imports Main "HOL-Library.Word"
begin

unbundle bit_operations_syntax

section \<open>Data model of bloom.c\<close>

text \<open>
  The embedding fixes the usual LP64 data model: \<open>CHAR_BIT\<close> is 8, \<open>unsigned int\<close>
  and \<open>int\<close> are 32 bits wide, \<open>size_t\<close> is 64 bits wide and a function pointer
  occupies 8 bytes.  Undefined behaviour of the C program (division by zero, an access
  outside an allocated block, signed overflow of the loop counter, \<open>va_arg\<close> past the
  last argument) is a value of type \<open>fault\<close>; a \<open>NULL\<close> result of
  \<open>bloom_new\<close> is the value \<open>None\<close>.
\<close>

type_synonym size_t = "64 word"
type_synonym uint = "32 word"
type_synonym byte = "8 word"

datatype fault = DivisionByZero | OutOfBounds | SignedOverflow | MissingArgument

text \<open>
  Modelled from the spec: the type \<open>hashfp_t\<close> is declared in bloom.h.  A hash
  function takes the key and returns an unsigned integer of implementation-defined width;
  the width is the type parameter \<open>'w\<close>.
\<close>

type_synonym 'w hashfp_t = "string \<Rightarrow> 'w word"

text \<open>
  Modelled from the spec: \<open>struct bloom_t\<close> is declared in bloom.h.  Its four fields
  are the ones bloom.c reads and writes: the byte array \<open>a\<close>, the table \<open>hash\<close> of
  function pointers, and the two sizes \<open>k\<close> and \<open>m\<close>, which \<open>bloom_new\<close>
  assigns from \<open>size_t\<close> arguments.
\<close>

record (overloaded) 'w bloom_t =
  a :: "byte list"
  hash :: "'w hashfp_t list"
  k :: size_t
  m :: size_t

definition CHAR_BIT :: size_t where
  "CHAR_BIT = 8"

definition INT_MAX :: nat where
  "INT_MAX = 2147483647"

section \<open>The bit macros\<close>

text \<open>\<open>#define SETBIT(a,n) (a[n/CHAR_BIT] |= (1<<(n%CHAR_BIT)))\<close>\<close>

definition SETBIT :: "byte list \<Rightarrow> size_t \<Rightarrow> fault + byte list" where
  "SETBIT arr n =
     (let i = unat (n div CHAR_BIT) in
      if i < length arr
      then Inr (arr[i := (arr ! i) OR push_bit (unat (n mod CHAR_BIT)) 1])
      else Inl OutOfBounds)"

text \<open>\<open>#define GETBIT(a,n) (a[n/CHAR_BIT] &  (1<<(n%CHAR_BIT)))\<close>\<close>

definition GETBIT :: "byte list \<Rightarrow> size_t \<Rightarrow> fault + byte" where
  "GETBIT arr n =
     (let i = unat (n div CHAR_BIT) in
      if i < length arr
      then Inr ((arr ! i) AND push_bit (unat (n mod CHAR_BIT)) 1)
      else Inl OutOfBounds)"

text \<open>\<open>#define ROUND(size) ((size + CHAR_BIT - 1) / CHAR_BIT)\<close>, in \<open>size_t\<close>
  arithmetic, which wraps.\<close>

definition ROUND :: "size_t \<Rightarrow> size_t" where
  "ROUND sz = (sz + CHAR_BIT - 1) div CHAR_BIT"

section \<open>bloom\_new\<close>

text \<open>
  The three allocations of \<open>bloom_new\<close> may each fail; their outcomes are an input
  of the model.
\<close>

record alloc =
  container_ok :: bool
  array_ok :: bool
  table_ok :: bool

text \<open>
  The loop \<open>for (n=0; n<num_hashes; n++) bloom->hash[n] = va_arg(hashes, hashfp_t)\<close>.
  \<open>args\<close> are the variadic arguments not yet consumed, \<open>cap\<close> is the number of
  table entries that fit in the allocated block, \<open>tbl\<close> the entries written so far.
\<close>

function new_loop ::
  "'w hashfp_t list \<Rightarrow> size_t \<Rightarrow> nat \<Rightarrow> 'w hashfp_t list \<Rightarrow> nat \<Rightarrow> fault + 'w hashfp_t list"
where
  "new_loop args num_hashes cap tbl n =
     (if n < unat num_hashes then
        (case args of
           [] \<Rightarrow> Inl MissingArgument
         | f # rest \<Rightarrow>
             if cap \<le> n then Inl OutOfBounds
             else if n = INT_MAX then Inl SignedOverflow
             else new_loop rest num_hashes cap (tbl @ [f]) (Suc n))
      else Inr tbl)"
  by pat_completeness auto
termination
  by (relation "measure (\<lambda>(args, num_hashes, cap, tbl, n). unat num_hashes - n)") auto

definition bloom_new ::
  "alloc \<Rightarrow> size_t \<Rightarrow> size_t \<Rightarrow> 'w hashfp_t list \<Rightarrow> fault + 'w bloom_t option"
where
  "bloom_new al sz num_hashes hashes =
     (if \<not> container_ok al then Inr None
      else if \<not> array_ok al then Inr None
      else if \<not> table_ok al then Inr None
      else
        (case new_loop hashes num_hashes (unat (num_hashes * 8) div 8) [] 0 of
           Inl e \<Rightarrow> Inl e
         | Inr tbl \<Rightarrow>
             Inr (Some \<lparr> a = replicate (unat (ROUND sz)) 0,
                         hash = tbl,
                         k = num_hashes,
                         m = sz \<rparr>)))"

section \<open>bloom\_add\<close>

function add_loop :: "'w::len bloom_t \<Rightarrow> string \<Rightarrow> nat \<Rightarrow> fault + 'w bloom_t" where
  "add_loop bloom s n =
     (if n < unat (k bloom) then
        (if length (hash bloom) \<le> n then Inl OutOfBounds
         else
           let h = (ucast ((hash bloom ! n) s) :: uint) in
           if m bloom = 0 then Inl DivisionByZero
           else
             (case SETBIT (a bloom) (ucast h mod m bloom) of
                Inl e \<Rightarrow> Inl e
              | Inr arr \<Rightarrow>
                  if n = INT_MAX then Inl SignedOverflow
                  else add_loop (bloom\<lparr>a := arr\<rparr>) s (Suc n)))
      else Inr bloom)"
  by pat_completeness auto
termination
  by (relation "measure (\<lambda>(bloom, s, n). unat (k bloom) - n)") auto

definition bloom_add :: "'w::len bloom_t \<Rightarrow> string \<Rightarrow> fault + 'w bloom_t" where
  "bloom_add bloom s = add_loop bloom s 0"

section \<open>bloom\_check\<close>

function check_loop :: "'w::len bloom_t \<Rightarrow> string \<Rightarrow> nat \<Rightarrow> fault + bool" where
  "check_loop bloom s n =
     (if n < unat (k bloom) then
        (if length (hash bloom) \<le> n then Inl OutOfBounds
         else
           let h = (ucast ((hash bloom ! n) s) :: uint) in
           if m bloom = 0 then Inl DivisionByZero
           else
             (case GETBIT (a bloom) (ucast h mod m bloom) of
                Inl e \<Rightarrow> Inl e
              | Inr v \<Rightarrow>
                  if v = 0 then Inr False
                  else if n = INT_MAX then Inl SignedOverflow
                  else check_loop bloom s (Suc n)))
      else Inr True)"
  by pat_completeness auto
termination
  by (relation "measure (\<lambda>(bloom, s, n). unat (k bloom) - n)") auto

definition bloom_check :: "'w::len bloom_t \<Rightarrow> string \<Rightarrow> fault + bool" where
  "bloom_check bloom s = check_loop bloom s 0"

section \<open>Sequences of calls\<close>

datatype op = Add string | Check string

fun run :: "'w::len bloom_t \<Rightarrow> op list \<Rightarrow> fault + 'w bloom_t" where
  "run bloom [] = Inr bloom"
| "run bloom (Add s # ops) =
     (case bloom_add bloom s of Inl e \<Rightarrow> Inl e | Inr bloom' \<Rightarrow> run bloom' ops)"
| "run bloom (Check s # ops) =
     (case bloom_check bloom s of Inl e \<Rightarrow> Inl e | Inr r \<Rightarrow> run bloom ops)"

section \<open>The abstract view of a filter\<close>

text \<open>The bit with index \<open>i\<close> of the packed array.\<close>

definition bit_at :: "byte list \<Rightarrow> nat \<Rightarrow> bool" where
  "bit_at arr i = bit (arr ! (i div 8)) (i mod 8)"

text \<open>The index that both loops compute from the value \<open>v\<close> returned by a hash
  function: the cast to \<open>unsigned int\<close>, then the remainder modulo \<open>m\<close> in
  \<open>size_t\<close> arithmetic.\<close>

definition index_of :: "size_t \<Rightarrow> 'w::len word \<Rightarrow> nat" where
  "index_of msize v = unat ((ucast (ucast v :: uint) :: size_t) mod msize)"

text \<open>
  The invariants of section 3 of the specification, on the C representation: \<open>m\<close> is
  positive, the array covers \<open>m\<close> bits, \<open>k\<close> is the length of the table, and the
  \<open>int\<close> loop counter can reach \<open>k\<close>.
\<close>

definition wf :: "'w bloom_t \<Rightarrow> bool" where
  "wf bloom \<longleftrightarrow>
     m bloom \<noteq> 0 \<and>
     unat (m bloom) \<le> 8 * length (a bloom) \<and>
     unat (k bloom) = length (hash bloom) \<and>
     unat (k bloom) \<le> INT_MAX"

text \<open>The update that \<open>SETBIT\<close> performs on an array that holds bit \<open>i\<close>.\<close>

definition set_bit_at :: "byte list \<Rightarrow> nat \<Rightarrow> byte list" where
  "set_bit_at arr i = arr[i div 8 := (arr ! (i div 8)) OR push_bit (i mod 8) 1]"

text \<open>The updates of one run of the loop of \<open>bloom_add\<close>, in order.\<close>

definition set_bits :: "byte list \<Rightarrow> nat list \<Rightarrow> byte list" where
  "set_bits arr is = fold (\<lambda>i arr'. set_bit_at arr' i) is arr"

text \<open>The indices computed for a key, one for each entry of the table, in stored order.\<close>

definition indices :: "'w::len bloom_t \<Rightarrow> string \<Rightarrow> nat list" where
  "indices bloom s = map (\<lambda>f. index_of (m bloom) (f s)) (hash bloom)"

text \<open>The index as the specification words it: the hash value modulo \<open>m\<close>.\<close>

definition spec_index :: "'w::len bloom_t \<Rightarrow> nat \<Rightarrow> string \<Rightarrow> nat" where
  "spec_index bloom i s = unat ((hash bloom ! i) s) mod unat (m bloom)"

text \<open>The index with the cast written out on natural numbers: the hash value modulo
  \<open>2 ^ 32\<close>, then modulo \<open>m\<close>.\<close>

definition trunc_index :: "'w::len bloom_t \<Rightarrow> nat \<Rightarrow> string \<Rightarrow> nat" where
  "trunc_index bloom i s = (unat ((hash bloom ! i) s) mod 2 ^ 32) mod unat (m bloom)"

section \<open>Example filters\<close>

text \<open>A filter of 8 bits with two 32-bit hash functions and no bit set.\<close>

definition filter8 :: "32 bloom_t" where
  "filter8 = \<lparr> a = [0], hash = [\<lambda>s. of_nat (length s), \<lambda>s. 5], k = 2, m = 8 \<rparr>"

text \<open>Every allocation of \<open>bloom_new\<close> succeeds.\<close>

definition all_ok :: alloc where
  "all_ok = \<lparr> container_ok = True, array_ok = True, table_ok = True \<rparr>"

text \<open>
  A filter whose second index for any key is a bit that is not set, and a variant of it
  whose table holds only two of the seven entries that \<open>k\<close> announces.
\<close>

definition filter_sc :: "32 bloom_t" where
  "filter_sc = \<lparr> a = [1], hash = [\<lambda>s. 8, \<lambda>s. 3, \<lambda>s. 0], k = 3, m = 8 \<rparr>"

definition filter_sc_short :: "32 bloom_t" where
  "filter_sc_short = \<lparr> a = [1], hash = [\<lambda>s. 8, \<lambda>s. 3], k = 7, m = 8 \<rparr>"

text \<open>A filter of 8 bits in which bit 0 is set and every key maps to bit 0.\<close>

definition filter_mono :: "32 bloom_t" where
  "filter_mono = \<lparr> a = [1], hash = [\<lambda>s. 8, \<lambda>s. 0], k = 2, m = 8 \<rparr>"

text \<open>
  Two filters of \<open>2 ^ 32 + 8\<close> bits with a 64-bit hash function whose value does not
  fit in \<open>unsigned int\<close>; they differ in bit \<open>2 ^ 32\<close> only.
\<close>

definition big :: "64 bloom_t" where
  "big = \<lparr> a = replicate 536870913 0, hash = [\<lambda>s. 4294967297], k = 1, m = 4294967304 \<rparr>"

definition big_other :: "64 bloom_t" where
  "big_other = \<lparr> a = replicate 536870912 0 @ [1], hash = [\<lambda>s. 4294967297], k = 1,
                  m = 4294967304 \<rparr>"

text \<open>
  Two filters of 3 bits with the same 64-bit hash function, before and after the key
  \<open>''x''\<close> is added.
\<close>

definition wide_empty :: "64 bloom_t" where
  "wide_empty = \<lparr> a = [0], hash = [\<lambda>s. 4294967297], k = 1, m = 3 \<rparr>"

definition wide_one :: "64 bloom_t" where
  "wide_one = \<lparr> a = [2], hash = [\<lambda>s. 4294967297], k = 1, m = 3 \<rparr>"

section \<open>The bit macros on the abstract view\<close>

lemma length_set_bit_at [simp]: "length (set_bit_at arr i) = length arr"
  by (simp add: set_bit_at_def)

lemma SETBIT_eq:
  "unat n div 8 < length arr \<Longrightarrow> SETBIT arr n = Inr (set_bit_at arr (unat n))"
  by (simp add: SETBIT_def set_bit_at_def CHAR_BIT_def unat_div unat_mod Let_def)

lemma SETBIT_out:
  "\<not> unat n div 8 < length arr \<Longrightarrow> SETBIT arr n = Inl OutOfBounds"
  by (simp add: SETBIT_def CHAR_BIT_def unat_div Let_def)

lemma GETBIT_eq:
  "unat n div 8 < length arr \<Longrightarrow>
     GETBIT arr n = Inr ((arr ! (unat n div 8)) AND 2 ^ (unat n mod 8))"
  by (simp add: GETBIT_def CHAR_BIT_def unat_div unat_mod Let_def push_bit_of_1)

lemma GETBIT_zero_iff:
  "((arr ! (i div 8)) AND 2 ^ (i mod 8) = (0::byte)) \<longleftrightarrow> \<not> bit_at arr i"
  by (simp add: bit_at_def and_exp_eq_0_iff_not_bit)

lemma bit_at_set_bit_at:
  assumes "i div 8 < length arr" "j div 8 < length arr"
  shows "bit_at (set_bit_at arr j) i \<longleftrightarrow> bit_at arr i \<or> i = j"
proof (cases "i div 8 = j div 8")
  case True
  have "i mod 8 = j mod 8 \<longleftrightarrow> i = j"
    using True by (metis div_mult_mod_eq)
  with True assms show ?thesis
    by (auto simp: bit_at_def set_bit_at_def bit_simps)
next
  case False
  then have "i \<noteq> j" by auto
  with False assms show ?thesis
    by (simp add: bit_at_def set_bit_at_def)
qed

lemma length_set_bits [simp]: "length (set_bits arr is) = length arr"
  by (induction "is" arbitrary: arr) (simp_all add: set_bits_def)

lemma set_bits_Nil [simp]: "set_bits arr [] = arr"
  by (simp add: set_bits_def)

lemma set_bits_Cons [simp]: "set_bits arr (i # is) = set_bits (set_bit_at arr i) is"
  by (simp add: set_bits_def)

lemma bit_at_set_bits:
  assumes "i div 8 < length arr" "\<forall>j \<in> set is. j div 8 < length arr"
  shows "bit_at (set_bits arr is) i \<longleftrightarrow> bit_at arr i \<or> i \<in> set is"
  using assms
proof (induction "is" arbitrary: arr)
  case Nil
  then show ?case by simp
next
  case (Cons j js)
  then show ?case
    by (auto simp: bit_at_set_bit_at)
qed

lemma index_of_nat:
  "index_of msize (v :: 'w::len word) = (unat v mod 2 ^ 32) mod unat msize"
proof -
  have "(4294967296::nat) dvd 18446744073709551616" by simp
  then have "unat v mod 18446744073709551616 mod 4294967296 = unat v mod 4294967296"
    by (rule mod_mod_cancel)
  then show ?thesis
    by (simp add: index_of_def unat_mod unsigned_ucast_eq take_bit_eq_mod)
qed

lemma index_of_less: "msize \<noteq> 0 \<Longrightarrow> index_of msize v < unat msize"
  by (simp add: index_of_nat unat_gt_0)

lemma index_of_less_2p32: "index_of msize v < 2 ^ 32"
proof -
  have "index_of msize v \<le> unat v mod 2 ^ 32"
    by (simp add: index_of_nat)
  also have "\<dots> < 2 ^ 32" by simp
  finally show ?thesis .
qed

section \<open>The loops\<close>

lemma add_loop_eq:
  assumes "wf bloom" "n \<le> unat (k bloom)"
  shows "add_loop bloom s n =
           Inr (bloom\<lparr>a := set_bits (a bloom)
                  (map (\<lambda>f. index_of (m bloom) (f s)) (drop n (hash bloom)))\<rparr>)"
  using assms
proof (induction "unat (k bloom) - n" arbitrary: bloom n)
  case 0
  then have "n = unat (k bloom)" by simp
  with 0 show ?case
    by (subst add_loop.simps) (simp add: wf_def)
next
  case (Suc d)
  then have lt: "n < unat (k bloom)" and len: "n < length (hash bloom)"
    and m0: "m bloom \<noteq> 0" and nmax: "n \<noteq> INT_MAX"
    by (auto simp: wf_def)
  let ?i = "index_of (m bloom) ((hash bloom ! n) s)"
  let ?b = "bloom\<lparr>a := set_bit_at (a bloom) ?i\<rparr>"
  have "?i < unat (m bloom)" using m0 by (rule index_of_less)
  with Suc.prems have inb: "?i div 8 < length (a bloom)"
    by (auto simp: wf_def)
  have wf': "wf ?b" using Suc.prems by (simp add: wf_def)
  have step: "add_loop bloom s n = add_loop ?b s (Suc n)"
    using lt len m0 nmax inb
    by (subst add_loop.simps) (simp add: SETBIT_eq index_of_def Let_def)
  have "add_loop ?b s (Suc n) =
          Inr (?b\<lparr>a := set_bits (a ?b)
                 (map (\<lambda>f. index_of (m ?b) (f s)) (drop (Suc n) (hash ?b)))\<rparr>)"
    using Suc.hyps Suc.prems lt wf' by (intro Suc.hyps(1)) auto
  moreover have "drop n (hash bloom) = hash bloom ! n # drop (Suc n) (hash bloom)"
    using len by (simp add: Cons_nth_drop_Suc)
  ultimately show ?case
    using step by simp
qed


lemma check_loop_eq:
  assumes "wf bloom" "n \<le> unat (k bloom)"
  shows "check_loop bloom s n =
           Inr (\<forall>f \<in> set (drop n (hash bloom)). bit_at (a bloom) (index_of (m bloom) (f s)))"
  using assms
proof (induction "unat (k bloom) - n" arbitrary: n)
  case 0
  then have "n = unat (k bloom)" by simp
  with 0 show ?case
    by (subst check_loop.simps) (simp add: wf_def)
next
  case (Suc d)
  then have lt: "n < unat (k bloom)" and len: "n < length (hash bloom)"
    and m0: "m bloom \<noteq> 0" and nmax: "n \<noteq> INT_MAX"
    by (auto simp: wf_def)
  let ?i = "index_of (m bloom) ((hash bloom ! n) s)"
  have "?i < unat (m bloom)" using m0 by (rule index_of_less)
  with Suc.prems have inb: "?i div 8 < length (a bloom)"
    by (auto simp: wf_def)
  have step: "check_loop bloom s n =
                (if bit_at (a bloom) ?i then check_loop bloom s (Suc n) else Inr False)"
    using lt len m0 nmax inb
    by (subst check_loop.simps)
       (simp add: GETBIT_eq GETBIT_zero_iff index_of_def [symmetric] Let_def)
  have "check_loop bloom s (Suc n) =
          Inr (\<forall>f \<in> set (drop (Suc n) (hash bloom)). bit_at (a bloom) (index_of (m bloom) (f s)))"
    using Suc.hyps Suc.prems lt by (intro Suc.hyps(1)) auto
  moreover have "drop n (hash bloom) = hash bloom ! n # drop (Suc n) (hash bloom)"
    using len by (simp add: Cons_nth_drop_Suc)
  ultimately show ?case
    using step by simp
qed

lemma check_loop_short:
  assumes "m bloom \<noteq> 0" "j < unat (k bloom)" "j < length (hash bloom)" "j \<le> INT_MAX"
    and "n \<le> j"
    and "\<forall>i. n \<le> i \<and> i < j \<longrightarrow> bit_at (a bloom) (index_of (m bloom) ((hash bloom ! i) s))"
    and "\<forall>i \<le> j. index_of (m bloom) ((hash bloom ! i) s) div 8 < length (a bloom)"
    and "\<not> bit_at (a bloom) (index_of (m bloom) ((hash bloom ! j) s))"
  shows "check_loop bloom s n = Inr False"
  using assms
proof (induction "j - n" arbitrary: n)
  case 0
  then have "n = j" by simp
  with 0 show ?case
    by (subst check_loop.simps)
       (simp add: GETBIT_eq GETBIT_zero_iff index_of_def [symmetric] Let_def)
next
  case (Suc d)
  then have "n < j" by simp
  with Suc.prems have "check_loop bloom s n = check_loop bloom s (Suc n)"
    by (subst check_loop.simps)
       (simp add: GETBIT_eq GETBIT_zero_iff index_of_def [symmetric] Let_def)
  moreover have "check_loop bloom s (Suc n) = Inr False"
    using Suc.hyps Suc.prems \<open>n < j\<close> by (intro Suc.hyps(1)) auto
  ultimately show ?case by simp
qed

lemma new_loop_eq:
  assumes "unat num_hashes \<le> n + length args" "unat num_hashes \<le> cap"
    "unat num_hashes \<le> INT_MAX" "n \<le> unat num_hashes"
  shows "new_loop args num_hashes cap tbl n = Inr (tbl @ take (unat num_hashes - n) args)"
  using assms
proof (induction "unat num_hashes - n" arbitrary: args tbl n)
  case 0
  then show ?case by (subst new_loop.simps) simp
next
  case (Suc d)
  then have lt: "n < unat num_hashes" by simp
  with Suc.prems obtain f rest where args: "args = f # rest"
    by (cases args) auto
  have "new_loop args num_hashes cap tbl n = new_loop rest num_hashes cap (tbl @ [f]) (Suc n)"
    using lt args Suc.prems by (subst new_loop.simps) simp
  moreover have "new_loop rest num_hashes cap (tbl @ [f]) (Suc n) =
                   Inr ((tbl @ [f]) @ take (unat num_hashes - Suc n) rest)"
    using Suc.hyps Suc.prems lt args by (intro Suc.hyps(1)) auto
  moreover have "take (unat num_hashes - n) args = f # take (unat num_hashes - Suc n) rest"
    using lt args by (simp add: take_Cons')
  ultimately show ?case by simp
qed

lemma new_loop_zero: "new_loop args 0 cap tbl n = Inr tbl"
  by (subst new_loop.simps) simp

lemma ROUND_unat: "unat sz \<le> 2 ^ 64 - 8 \<Longrightarrow> unat (ROUND sz) = (unat sz + 7) div 8"
  apply (simp add: ROUND_def CHAR_BIT_def unat_div)
  apply (simp add: unat_word_ariths)
  done


section \<open>Consequences for add, check and sequences of calls\<close>

lemma bloom_add_eq:
  "wf bloom \<Longrightarrow> bloom_add bloom s = Inr (bloom\<lparr>a := set_bits (a bloom) (indices bloom s)\<rparr>)"
  using add_loop_eq [of bloom 0 s] by (simp add: bloom_add_def indices_def)

lemma bloom_check_eq:
  "wf bloom \<Longrightarrow> bloom_check bloom s = Inr (\<forall>i \<in> set (indices bloom s). bit_at (a bloom) i)"
  using check_loop_eq [of bloom 0 s] by (simp add: bloom_check_def indices_def)

lemma indices_bound:
  assumes "wf bloom" "i \<in> set (indices bloom s)"
  shows "i < unat (m bloom)" and "i div 8 < length (a bloom)"
proof -
  from assms show "i < unat (m bloom)"
    by (auto simp: indices_def wf_def index_of_less)
  with assms show "i div 8 < length (a bloom)"
    by (auto simp: wf_def)
qed

lemma wf_update_a:
  "wf bloom \<Longrightarrow> length arr = length (a bloom) \<Longrightarrow> wf (bloom\<lparr>a := arr\<rparr>)"
  by (simp add: wf_def)

lemma indices_update_a [simp]: "indices (bloom\<lparr>a := arr\<rparr>) s = indices bloom s"
  by (simp add: indices_def)

lemma in_set_indices:
  assumes "wf bloom"
  shows "i \<in> set (indices bloom s) \<longleftrightarrow> (\<exists>n < unat (k bloom). i = trunc_index bloom n s)"
proof -
  have "indices bloom s = map (\<lambda>n. trunc_index bloom n s) [0..<length (hash bloom)]"
    by (rule nth_equalityI) (simp_all add: indices_def trunc_index_def index_of_nat)
  with assms show ?thesis
    by (auto simp: wf_def)
qed

lemma trunc_index_fits:
  assumes "\<forall>f \<in> set (hash bloom). unat (f s) < 2 ^ 32" "n < length (hash bloom)"
  shows "trunc_index bloom n s = spec_index bloom n s"
  using assms by (simp add: trunc_index_def spec_index_def)

lemma bit_at_after_add:
  assumes "wf bloom" "i < 8 * length (a bloom)"
  shows "bit_at (set_bits (a bloom) (indices bloom s)) i \<longleftrightarrow>
           bit_at (a bloom) i \<or> i \<in> set (indices bloom s)"
proof (rule bit_at_set_bits)
  from assms(2) show "i div 8 < length (a bloom)" by auto
  from assms(1) show "\<forall>j \<in> set (indices bloom s). j div 8 < length (a bloom)"
    by (auto dest: indices_bound(2))
qed

lemma arr_eqI:
  assumes len: "length arr = length arr'"
    and bits: "\<And>i. i < 8 * length arr \<Longrightarrow> bit_at arr i = bit_at arr' i"
  shows "arr = (arr' :: byte list)"
proof (rule nth_equalityI)
  show "length arr = length arr'" by (rule len)
next
  fix j assume j: "j < length arr"
  show "arr ! j = arr' ! j"
  proof (rule bit_word_eqI)
    fix n assume "n < LENGTH(8)"
    then have n: "n < 8" by simp
    with j have "8 * j + n < 8 * length arr" by simp
    then have "bit_at arr (8 * j + n) = bit_at arr' (8 * j + n)" by (rule bits)
    with n show "bit (arr ! j) n = bit (arr' ! j) n"
      by (simp add: bit_at_def)
  qed
qed

lemma set_bits_idem:
  assumes "wf bloom"
  shows "set_bits (set_bits (a bloom) (indices bloom s)) (indices bloom s) =
           set_bits (a bloom) (indices bloom s)"
proof (rule arr_eqI)
  let ?arr = "set_bits (a bloom) (indices bloom s)"
  let ?b = "bloom\<lparr>a := ?arr\<rparr>"
  show "length (set_bits ?arr (indices bloom s)) = length ?arr" by simp
  fix i assume "i < 8 * length (set_bits ?arr (indices bloom s))"
  then have i: "i < 8 * length (a bloom)" by simp
  have wf': "wf ?b" using assms by (simp add: wf_update_a)
  have "bit_at (set_bits (a ?b) (indices ?b s)) i \<longleftrightarrow> bit_at (a ?b) i \<or> i \<in> set (indices ?b s)"
    using wf' i by (intro bit_at_after_add) simp_all
  then show "bit_at (set_bits ?arr (indices bloom s)) i = bit_at ?arr i"
    using assms i by (auto simp: bit_at_after_add)
qed

lemma run_props:
  assumes "wf bloom"
  shows "\<exists>bloom'. run bloom ops = Inr bloom' \<and> wf bloom' \<and>
           m bloom' = m bloom \<and> k bloom' = k bloom \<and> hash bloom' = hash bloom \<and>
           length (a bloom') = length (a bloom) \<and>
           (\<forall>i < 8 * length (a bloom). bit_at (a bloom) i \<longrightarrow> bit_at (a bloom') i)"
  using assms
proof (induction ops arbitrary: bloom)
  case Nil
  then show ?case by simp
next
  case (Cons x ops)
  show ?case
  proof (cases x)
    case (Add s)
    let ?b = "bloom\<lparr>a := set_bits (a bloom) (indices bloom s)\<rparr>"
    have wf': "wf ?b" using Cons.prems by (simp add: wf_update_a)
    from Cons.IH [OF wf'] obtain bloom' where
      r: "run ?b ops = Inr bloom'" and w: "wf bloom'"
      and f: "m bloom' = m ?b" "k bloom' = k ?b" "hash bloom' = hash ?b"
        "length (a bloom') = length (a ?b)"
      and mono: "\<forall>i < 8 * length (a ?b). bit_at (a ?b) i \<longrightarrow> bit_at (a bloom') i"
      by blast
    have "run bloom (x # ops) = Inr bloom'"
      using Add r Cons.prems by (simp add: bloom_add_eq)
    moreover have "\<forall>i < 8 * length (a bloom). bit_at (a bloom) i \<longrightarrow> bit_at (a bloom') i"
      using mono Cons.prems by (auto simp: bit_at_after_add)
    ultimately show ?thesis using w f by simp
  next
    case (Check s)
    from Cons.IH [OF Cons.prems] obtain bloom' where
      r: "run bloom ops = Inr bloom'" and rest: "wf bloom'"
        "m bloom' = m bloom" "k bloom' = k bloom" "hash bloom' = hash bloom"
        "length (a bloom') = length (a bloom)"
        "\<forall>i < 8 * length (a bloom). bit_at (a bloom) i \<longrightarrow> bit_at (a bloom') i"
      by blast
    have "run bloom (x # ops) = Inr bloom'"
      using Check r Cons.prems by (simp add: bloom_check_eq)
    then show ?thesis using rest by simp
  qed
qed

lemma check_mono:
  assumes "wf bloom" "wf bloom'" "m bloom' = m bloom" "hash bloom' = hash bloom"
    and "length (a bloom') = length (a bloom)"
    and "\<forall>i < 8 * length (a bloom). bit_at (a bloom) i \<longrightarrow> bit_at (a bloom') i"
    and "bloom_check bloom x = Inr True"
  shows "bloom_check bloom' x = Inr True"
proof -
  have same: "indices bloom' x = indices bloom x"
    using assms by (simp add: indices_def)
  have "\<forall>i \<in> set (indices bloom x). bit_at (a bloom) i"
    using assms by (simp add: bloom_check_eq)
  moreover have "\<forall>i \<in> set (indices bloom x). i < 8 * length (a bloom)"
    using assms(1) indices_bound(2) [of bloom _ x] by fastforce
  ultimately have "\<forall>i \<in> set (indices bloom x). bit_at (a bloom') i"
    using assms by blast
  then show ?thesis
    using assms same by (simp add: bloom_check_eq)
qed

lemma check_after_add:
  assumes "wf bloom"
  shows "bloom_check (bloom\<lparr>a := set_bits (a bloom) (indices bloom x)\<rparr>) x = Inr True"
proof -
  let ?b = "bloom\<lparr>a := set_bits (a bloom) (indices bloom x)\<rparr>"
  have wf': "wf ?b" using assms by (simp add: wf_update_a)
  have "\<forall>i \<in> set (indices bloom x). i < 8 * length (a bloom)"
    using assms indices_bound(2) [of bloom _ x] by fastforce
  then have "\<forall>i \<in> set (indices bloom x). bit_at (set_bits (a bloom) (indices bloom x)) i"
    using assms by (simp add: bit_at_after_add)
  then show ?thesis using wf' by (simp add: bloom_check_eq)
qed

section \<open>Construction and degenerate filters\<close>

lemma new_loop_Inr:
  assumes "new_loop args num_hashes cap tbl n = Inr t" "n \<le> unat num_hashes" "n \<le> INT_MAX"
  shows "t = tbl @ take (unat num_hashes - n) args \<and>
         unat num_hashes - n \<le> length args \<and> unat num_hashes \<le> INT_MAX"
  using assms
proof (induction "unat num_hashes - n" arbitrary: args tbl n)
  case 0
  then have "n = unat num_hashes" by simp
  with 0 show ?case
    by (subst (asm) new_loop.simps) simp
next
  case (Suc d)
  then have lt: "n < unat num_hashes" by simp
  from Suc.prems(1) lt obtain f rest where args: "args = f # rest"
    and nmax: "n \<noteq> INT_MAX"
    and rec: "new_loop rest num_hashes cap (tbl @ [f]) (Suc n) = Inr t"
    by (subst (asm) new_loop.simps) (auto split: list.splits if_splits)
  have "t = (tbl @ [f]) @ take (unat num_hashes - Suc n) rest \<and>
        unat num_hashes - Suc n \<le> length rest \<and> unat num_hashes \<le> INT_MAX"
    using Suc.hyps Suc.prems lt nmax rec by (intro Suc.hyps(1)) auto
  moreover have "take (unat num_hashes - n) args = f # take (unat num_hashes - Suc n) rest"
    using lt args by (simp add: take_Cons')
  ultimately show ?case using args lt by auto
qed

lemma bloom_new_Some:
  assumes "bloom_new al sz num_hashes hashes = Inr (Some bloom)"
  shows "bloom = \<lparr> a = replicate (unat (ROUND sz)) 0, hash = take (unat num_hashes) hashes,
                   k = num_hashes, m = sz \<rparr>"
    and "unat num_hashes \<le> length hashes" and "unat num_hashes \<le> INT_MAX"
proof -
  from assms obtain tbl where
    nl: "new_loop hashes num_hashes (unat (num_hashes * 8) div 8) [] 0 = Inr tbl"
    and b: "bloom = \<lparr> a = replicate (unat (ROUND sz)) 0, hash = tbl, k = num_hashes, m = sz \<rparr>"
    by (auto simp: bloom_new_def split: if_splits sum.splits)
  from new_loop_Inr [OF nl] have "tbl = take (unat num_hashes) hashes"
    and "unat num_hashes \<le> length hashes" and "unat num_hashes \<le> INT_MAX"
    by simp_all
  with b show "bloom = \<lparr> a = replicate (unat (ROUND sz)) 0, hash = take (unat num_hashes) hashes,
                   k = num_hashes, m = sz \<rparr>"
    and "unat num_hashes \<le> length hashes" and "unat num_hashes \<le> INT_MAX"
    by simp_all
qed

lemma table_capacity:
  fixes num_hashes :: size_t
  assumes "unat num_hashes \<le> INT_MAX"
  shows "unat (num_hashes * 8) div 8 = unat num_hashes"
proof -
  have "unat num_hashes * 8 < 2 ^ 64"
    using assms by (simp add: INT_MAX_def)
  then have "unat (num_hashes * 8) = unat num_hashes * 8"
    by (simp add: unat_word_ariths)
  then show ?thesis by simp
qed

lemma bloom_new_ok:
  assumes "unat num_hashes \<le> length hashes" "unat num_hashes \<le> INT_MAX"
  shows "bloom_new all_ok sz num_hashes hashes =
           Inr (Some \<lparr> a = replicate (unat (ROUND sz)) 0, hash = take (unat num_hashes) hashes,
                        k = num_hashes, m = sz \<rparr>)"
proof -
  have "new_loop hashes num_hashes (unat (num_hashes * 8) div 8) [] 0 =
          Inr ([] @ take (unat num_hashes - 0) hashes)"
    using assms by (intro new_loop_eq) (simp_all add: table_capacity)
  then show ?thesis
    by (simp add: bloom_new_def all_ok_def)
qed

lemma wf_new:
  assumes "bloom_new al sz num_hashes hashes = Inr (Some bloom)" "sz \<noteq> 0"
    "unat sz \<le> 2 ^ 64 - 8"
  shows "wf bloom"
proof -
  note b = bloom_new_Some [OF assms(1)]
  have "unat sz \<le> 8 * ((unat sz + 7) div 8)" by presburger
  with b assms(2,3) show ?thesis
    by (simp add: wf_def ROUND_unat)
qed

lemma bit_at_replicate_0: "i < 8 * n \<Longrightarrow> \<not> bit_at (replicate n 0) i"
  by (simp add: bit_at_def)

lemma check_loop_k0: "k bloom = 0 \<Longrightarrow> check_loop bloom s n = Inr True"
  by (subst check_loop.simps) simp

lemma add_loop_k0: "k bloom = 0 \<Longrightarrow> add_loop bloom s n = Inr bloom"
  by (subst add_loop.simps) simp

lemma run_k0: "k bloom = 0 \<Longrightarrow> run bloom ops = Inr bloom"
proof (induction ops)
  case Nil
  then show ?case by simp
next
  case (Cons x ops)
  then show ?case
    by (cases x) (simp_all add: bloom_add_def bloom_check_def add_loop_k0 check_loop_k0)
qed

lemma run_checks: "wf bloom \<Longrightarrow> run bloom (map Check ss) = Inr bloom"
  by (induction ss) (simp_all add: bloom_check_eq)

lemma bit_at_2: "bit_at [2] (Suc 0)" "\<not> bit_at [2] 2"
  by (simp_all add: bit_at_def bit_iff_odd_drop_bit)

text \<open>
  A filter constructed with \<open>1 \<le> sz \<le> 2 ^ 64 - 8\<close> and at least one hash function has
  an array that covers \<open>sz\<close> bits, all of them false, and \<open>bloom_check\<close> returns
  false for every key, also after any number of further checks.
\<close>

lemma empty_filter_in_range:
  fixes bloom :: "'w::len bloom_t"
  assumes "bloom_new al sz num_hashes hashes = Inr (Some bloom)"
    and "sz \<noteq> 0" and "unat sz \<le> 2 ^ 64 - 8" and "num_hashes \<noteq> 0"
  shows "m bloom = sz \<and> k bloom = num_hashes \<and> unat sz \<le> 8 * length (a bloom) \<and>
         (\<forall>i < 8 * length (a bloom). \<not> bit_at (a bloom) i) \<and>
         bloom_check bloom s = Inr False \<and>
         run bloom (map Check ss) = Inr bloom \<and>
         (\<forall>r. bloom_check bloom r = Inr False)"
proof -
  note b = bloom_new_Some [OF assms(1)]
  have w: "wf bloom" using assms(1-3) by (rule wf_new)
  have clear: "\<not> bit_at (a bloom) i" if "i < 8 * length (a bloom)" for i
    using that b(1) by (simp add: bit_at_replicate_0)
  have "k bloom \<noteq> 0" using b(1) assms(4) by simp
  then have "hash bloom \<noteq> []" using w by (auto simp: wf_def unat_eq_zero)
  then have ne: "indices bloom r \<noteq> []" for r by (simp add: indices_def)
  have chk: "bloom_check bloom r = Inr False" for r
  proof -
    from ne [of r] obtain i where i: "i \<in> set (indices bloom r)"
      by (cases "indices bloom r") auto
    with w have "i div 8 < length (a bloom)" by (rule indices_bound(2))
    then have "i < 8 * length (a bloom)" by auto
    then have "\<not> bit_at (a bloom) i" by (rule clear)
    with i w show ?thesis by (auto simp: bloom_check_eq)
  qed
  have "unat sz \<le> 8 * length (a bloom)" using w b(1) by (simp add: wf_def)
  moreover have "run bloom (map Check ss) = Inr bloom" using w by (rule run_checks)
  ultimately show ?thesis using b(1) clear chk by simp
qed

section \<open>The claims\<close>

text \<open>
  Throughout, a filter is a value that satisfies \<open>wf\<close>: the invariants of the data
  model.  \<open>empty_filter_in_range\<close> and \<open>wf_new\<close> show that \<open>bloom_new\<close> returns such a
  value for every size from 1 to \<open>2 ^ 64 - 8\<close>.
\<close>

text \<open>
  C1 (no false negatives).  For every filter (in particular \<open>m \<ge> 1\<close>) and every key
  \<open>x\<close>, \<open>bloom_add\<close> returns, \<open>bloom_check\<close> of \<open>x\<close> on the resulting filter returns
  true, and it still returns true after any further sequence of \<open>bloom_add\<close> calls on any
  keys \<open>ys\<close>; all these calls return without a fault.
\<close>

theorem no_false_negatives:
  assumes "wf bloom"
  shows "\<exists>b1 b2. bloom_add bloom x = Inr b1 \<and> bloom_check b1 x = Inr True \<and>
           run b1 (map Add ys) = Inr b2 \<and> bloom_check b2 x = Inr True"
proof -
  let ?b1 = "bloom\<lparr>a := set_bits (a bloom) (indices bloom x)\<rparr>"
  have add: "bloom_add bloom x = Inr ?b1"
    using assms by (rule bloom_add_eq)
  have wf1: "wf ?b1" using assms by (simp add: wf_update_a)
  have chk1: "bloom_check ?b1 x = Inr True"
    using assms by (rule check_after_add)
  from run_props [OF wf1, of "map Add ys"] obtain b2 where
    r: "run ?b1 (map Add ys) = Inr b2" and wf2: "wf b2"
    and same: "m b2 = m ?b1" "hash b2 = hash ?b1" "length (a b2) = length (a ?b1)"
    and mono: "\<forall>i < 8 * length (a ?b1). bit_at (a ?b1) i \<longrightarrow> bit_at (a b2) i"
    by blast
  have "bloom_check b2 x = Inr True"
    using wf1 wf2 same mono chk1 by (rule check_mono)
  with add chk1 r show ?thesis by blast
qed

theorem no_false_negatives_witness:
  "wf filter8 \<and>
   (\<exists>b1 b2. bloom_add filter8 ''ab'' = Inr b1 \<and> bloom_check b1 ''ab'' = Inr True \<and>
      run b1 (map Add [''c'', ''defg'']) = Inr b2 \<and> bloom_check b2 ''ab'' = Inr True)"
proof -
  have w: "wf filter8"
    by (simp add: wf_def filter8_def INT_MAX_def)
  from w no_false_negatives [OF w] show ?thesis by blast
qed

text \<open>
  C2, as stated, at a hash function of 64 bits.  The claim names the bit with index
  \<open>hash_functions[i](key) mod m\<close>, which is \<open>spec_index\<close>.  In the filter \<open>wide_one\<close> the
  only hash value of the key is \<open>2 ^ 32 + 1\<close> and \<open>m\<close> is 3, so the claim's index is 2, and
  bit 2 is false: by the claim \<open>bloom_check\<close> returns false.  It returns true, because the
  cast to \<open>unsigned int\<close> leaves 1 and bit 1 is set.
\<close>

theorem check_index_counterexample:
  "unat (k wide_one) = 1 \<and> spec_index wide_one 0 ''x'' = 2 \<and>
   \<not> bit_at (a wide_one) (spec_index wide_one 0 ''x'') \<and>
   bloom_check wide_one ''x'' = Inr True"
proof -
  have w: "wf wide_one"
    by (simp add: wf_def wide_one_def INT_MAX_def)
  have i: "indices wide_one ''x'' = [1]"
    by (simp add: indices_def index_of_nat wide_one_def)
  have s: "spec_index wide_one 0 ''x'' = 2"
    by (simp add: spec_index_def wide_one_def)
  have "bloom_check wide_one ''x'' = Inr True"
    using w i by (simp add: bloom_check_eq) (simp add: wide_one_def bit_at_2)
  moreover have "\<not> bit_at (a wide_one) 2"
    by (simp add: wide_one_def bit_at_2)
  moreover have "unat (k wide_one) = 1" by (simp add: wide_one_def)
  ultimately show ?thesis using s by simp
qed

text \<open>
  C2 (membership query), amended.  For every filter and key, \<open>bloom_check\<close> returns true
  exactly when, for each \<open>i < k\<close>, the bit with index
  \<open>(hash_functions[i](key) mod 2 ^ 32) mod m\<close> is true: the hash value after the cast to
  \<open>unsigned int\<close>, reduced modulo \<open>m\<close>.  It returns false as soon as one of those bits is
  false, without examining later entries: when bit \<open>j\<close> is false, the result is false for
  every \<open>other\<close> structure with the same array, the same \<open>m\<close> and the same first
  \<open>j + 1\<close> table entries, whatever follows them, even when its table ends before its
  \<open>k\<close> and a further iteration would read outside it.
\<close>

theorem bloom_check_short_circuit:
  fixes bloom :: "'w::len bloom_t"
  assumes "wf bloom"
  shows "bloom_check bloom s =
           Inr (\<forall>i < unat (k bloom). bit_at (a bloom) (trunc_index bloom i s)) \<and>
         (\<forall>j < unat (k bloom). \<not> bit_at (a bloom) (trunc_index bloom j s) \<longrightarrow>
            (\<forall>other. a other = a bloom \<and> m other = m bloom \<and> j < unat (k other) \<and>
                 take (Suc j) (hash other) = take (Suc j) (hash bloom) \<longrightarrow>
               bloom_check other s = Inr False))"
proof (intro conjI allI impI)
  show "bloom_check bloom s =
      Inr (\<forall>i < unat (k bloom). bit_at (a bloom) (trunc_index bloom i s))"
    unfolding bloom_check_eq [OF assms] Ball_def in_set_indices [OF assms] by auto
next
  fix j and other :: "'w bloom_t"
  assume j: "j < unat (k bloom)" and clr: "\<not> bit_at (a bloom) (trunc_index bloom j s)"
    and oth: "a other = a bloom \<and> m other = m bloom \<and> j < unat (k other) \<and>
              take (Suc j) (hash other) = take (Suc j) (hash bloom)"
  define P where "P i \<longleftrightarrow> \<not> bit_at (a bloom) (trunc_index bloom i s)" for i
  define j0 where "j0 = (LEAST i. P i)"
  have "P j" using clr by (simp add: P_def)
  then have Pj0: "P j0" and j0j: "j0 \<le> j" and least: "\<And>i. i < j0 \<Longrightarrow> \<not> P i"
    unfolding j0_def by (auto intro: LeastI Least_le dest: not_less_Least)
  have lenb: "j < length (hash bloom)" using j assms by (simp add: wf_def)
  have "length (take (Suc j) (hash other)) = length (take (Suc j) (hash bloom))"
    using oth by simp
  with lenb have leno: "j < length (hash other)" by simp
  have nth: "hash other ! i = hash bloom ! i" if "i \<le> j" for i
  proof -
    have "take (Suc j) (hash other) ! i = take (Suc j) (hash bloom) ! i"
      using oth by simp
    with that show ?thesis by simp
  qed
  have m0: "m bloom \<noteq> 0" using assms by (simp add: wf_def)
  have ix: "index_of (m bloom) ((hash other ! i) s) = trunc_index bloom i s" if "i \<le> j" for i
    using that by (simp add: nth index_of_nat trunc_index_def)
  have inb: "trunc_index bloom i s div 8 < length (a bloom)" for i
  proof -
    have "trunc_index bloom i s < unat (m bloom)"
      using m0 by (simp add: trunc_index_def unat_gt_0)
    with assms show ?thesis by (auto simp: wf_def)
  qed
  have "check_loop other s 0 = Inr False"
  proof (rule check_loop_short [where j = j0])
    show "m other \<noteq> 0" using oth m0 by simp
    show "j0 < unat (k other)" using oth j0j by simp
    show "j0 < length (hash other)" using leno j0j by simp
    show "j0 \<le> INT_MAX" using j0j j assms by (simp add: wf_def)
    show "0 \<le> j0" by simp
    show "\<forall>i. 0 \<le> i \<and> i < j0 \<longrightarrow>
            bit_at (a other) (index_of (m other) ((hash other ! i) s))"
      using least j0j oth by (auto simp: ix P_def)
    show "\<forall>i \<le> j0. index_of (m other) ((hash other ! i) s) div 8 < length (a other)"
      using j0j oth inb by (auto simp: ix)
    show "\<not> bit_at (a other) (index_of (m other) ((hash other ! j0) s))"
      using Pj0 j0j oth by (simp add: ix P_def)
  qed
  then show "bloom_check other s = Inr False"
    by (simp add: bloom_check_def)
qed

theorem bloom_check_short_circuit_witness:
  "wf filter_sc \<and> 1 < unat (k filter_sc) \<and>
   \<not> bit_at (a filter_sc) (trunc_index filter_sc 1 ''x'') \<and>
   bloom_check filter_sc ''x'' = Inr False \<and>
   length (hash filter_sc_short) < unat (k filter_sc_short) \<and>
   bloom_check filter_sc_short ''x'' = Inr False"
proof -
  have w: "wf filter_sc"
    by (simp add: wf_def filter_sc_def INT_MAX_def)
  have c: "\<not> bit_at (a filter_sc) (trunc_index filter_sc 1 ''x'')"
    by (simp add: filter_sc_def trunc_index_def bit_at_def bit_1_iff)
  have j: "1 < unat (k filter_sc)" by (simp add: filter_sc_def)
  note th = bloom_check_short_circuit [OF w]
  from th j c have sc: "\<And>other. a other = a filter_sc \<and> m other = m filter_sc \<and>
      1 < unat (k other) \<and> take (Suc 1) (hash other) = take (Suc 1) (hash filter_sc)
      \<Longrightarrow> bloom_check other ''x'' = Inr False"
    by blast
  have "bloom_check filter_sc ''x'' = Inr False"
    using j by (intro sc) simp
  moreover have "bloom_check filter_sc_short ''x'' = Inr False"
    by (rule sc) (simp add: filter_sc_def filter_sc_short_def)
  moreover have "length (hash filter_sc_short) < unat (k filter_sc_short)"
    by (simp add: filter_sc_short_def)
  ultimately show ?thesis using w j c by blast
qed

text \<open>
  C3, as stated, at a hash function of 64 bits.  In the filter \<open>wide_empty\<close> the only
  hash value of the key is \<open>2 ^ 32 + 1\<close> and \<open>m\<close> is 3, so the claim has \<open>bloom_add\<close> set
  the bit with index 2.  \<open>bloom_add\<close> returns \<open>wide_one\<close>: bit 2 is still false, and bit
  1, which was false, is set.
\<close>

theorem add_index_counterexample:
  "unat (k wide_empty) = 1 \<and> spec_index wide_empty 0 ''x'' = 2 \<and>
   bloom_add wide_empty ''x'' = Inr wide_one \<and>
   \<not> bit_at (a wide_one) (spec_index wide_empty 0 ''x'') \<and>
   \<not> bit_at (a wide_empty) 1 \<and> bit_at (a wide_one) 1"
proof -
  have w: "wf wide_empty"
    by (simp add: wf_def wide_empty_def INT_MAX_def)
  have i: "indices wide_empty ''x'' = [1]"
    by (simp add: indices_def index_of_nat wide_empty_def)
  have s: "spec_index wide_empty 0 ''x'' = 2"
    by (simp add: spec_index_def wide_empty_def)
  have "set_bit_at [0] 1 = [2 :: byte]"
    by (simp add: set_bit_at_def)
  then have "bloom_add wide_empty ''x'' = Inr wide_one"
    using w i by (simp add: bloom_add_eq) (simp add: wide_empty_def wide_one_def)
  moreover have "\<not> bit_at (a wide_one) 2" "bit_at (a wide_one) 1"
    by (simp_all add: wide_one_def bit_at_2)
  moreover have "\<not> bit_at (a wide_empty) 1"
    by (simp add: wide_empty_def bit_at_def)
  moreover have "unat (k wide_empty) = 1" by (simp add: wide_empty_def)
  ultimately show ?thesis using s by simp
qed

text \<open>
  C3 (insertion and its frame), amended.  For every filter and key, \<open>bloom_add\<close> returns
  a filter with the same \<open>m\<close>, \<open>k\<close> and hash table and an array of the same length, in
  which a bit is true exactly when it was true before or its index is
  \<open>(hash_functions[i](key) mod 2 ^ 32) mod m\<close> for some \<open>i < k\<close>; at most \<open>k\<close> bits of
  the array differ from the array before.
\<close>

theorem bloom_add_frame:
  fixes bloom :: "'w::len bloom_t"
  assumes "wf bloom"
  shows "\<exists>bloom'. bloom_add bloom s = Inr bloom' \<and>
           m bloom' = m bloom \<and> k bloom' = k bloom \<and> hash bloom' = hash bloom \<and>
           length (a bloom') = length (a bloom) \<and>
           (\<forall>i < 8 * length (a bloom).
              bit_at (a bloom') i \<longleftrightarrow>
                bit_at (a bloom) i \<or> (\<exists>n < unat (k bloom). i = trunc_index bloom n s)) \<and>
           card {i. i < 8 * length (a bloom) \<and> bit_at (a bloom') i \<noteq> bit_at (a bloom) i}
             \<le> unat (k bloom)"
proof -
  let ?arr = "set_bits (a bloom) (indices bloom s)"
  let ?b = "bloom\<lparr>a := ?arr\<rparr>"
  have mem: "i \<in> set (indices bloom s) \<longleftrightarrow> (\<exists>n < unat (k bloom). i = trunc_index bloom n s)"
    for i
    using assms by (rule in_set_indices)
  have bits: "bit_at ?arr i \<longleftrightarrow> bit_at (a bloom) i \<or> i \<in> set (indices bloom s)"
    if "i < 8 * length (a bloom)" for i
    using assms that by (rule bit_at_after_add)
  have "{i. i < 8 * length (a bloom) \<and> bit_at ?arr i \<noteq> bit_at (a bloom) i}
          \<subseteq> set (indices bloom s)"
    using bits by auto
  then have "card {i. i < 8 * length (a bloom) \<and> bit_at ?arr i \<noteq> bit_at (a bloom) i}
          \<le> card (set (indices bloom s))"
    by (intro card_mono) simp_all
  also have "\<dots> \<le> length (indices bloom s)" by (rule card_length)
  also have "\<dots> = unat (k bloom)" using assms by (simp add: indices_def wf_def)
  finally have cnt: "card {i. i < 8 * length (a bloom) \<and> bit_at ?arr i \<noteq> bit_at (a bloom) i}
          \<le> unat (k bloom)" .
  have "bloom_add bloom s = Inr ?b" using assms by (rule bloom_add_eq)
  moreover have "\<forall>i < 8 * length (a bloom).
      bit_at (a ?b) i \<longleftrightarrow> bit_at (a bloom) i \<or> (\<exists>n < unat (k bloom). i = trunc_index bloom n s)"
    using bits mem by simp
  ultimately show ?thesis using cnt by (intro exI [of _ ?b]) simp
qed

theorem bloom_add_frame_witness:
  "wf filter8 \<and>
   (\<exists>bloom'. bloom_add filter8 ''ab'' = Inr bloom' \<and>
      m bloom' = m filter8 \<and> k bloom' = k filter8 \<and> hash bloom' = hash filter8 \<and>
      length (a bloom') = length (a filter8) \<and>
      (\<forall>i < 8 * length (a filter8).
         bit_at (a bloom') i \<longleftrightarrow>
           bit_at (a filter8) i \<or> (\<exists>n < unat (k filter8). i = trunc_index filter8 n ''ab'')) \<and>
      card {i. i < 8 * length (a filter8) \<and> bit_at (a bloom') i \<noteq> bit_at (a filter8) i}
        \<le> unat (k filter8))"
proof -
  have w: "wf filter8"
    by (simp add: wf_def filter8_def INT_MAX_def)
  from w bloom_add_frame [OF w] show ?thesis by blast
qed

text \<open>
  C4 (monotonicity).  For every filter and every sequence \<open>ops\<close> of \<open>bloom_add\<close> and
  \<open>bloom_check\<close> calls, the sequence returns a filter in which every bit that was true is
  still true, and every key \<open>x\<close> for which \<open>bloom_check\<close> returned true before still has
  \<open>bloom_check\<close> return true; a \<open>bloom_check\<close> call leaves the filter as it is.
\<close>

theorem monotonicity:
  fixes bloom :: "'w::len bloom_t"
  assumes "wf bloom"
  shows "\<exists>bloom'. run bloom ops = Inr bloom' \<and>
           length (a bloom') = length (a bloom) \<and>
           (\<forall>i < 8 * length (a bloom). bit_at (a bloom) i \<longrightarrow> bit_at (a bloom') i) \<and>
           (bloom_check bloom x = Inr True \<longrightarrow> bloom_check bloom' x = Inr True) \<and>
           run bloom [Check x] = Inr bloom"
proof -
  from run_props [OF assms, of ops] obtain bloom' where
    r: "run bloom ops = Inr bloom'" and w: "wf bloom'"
    and same: "m bloom' = m bloom" "hash bloom' = hash bloom" "length (a bloom') = length (a bloom)"
    and mono: "\<forall>i < 8 * length (a bloom). bit_at (a bloom) i \<longrightarrow> bit_at (a bloom') i"
    by blast
  have "bloom_check bloom' x = Inr True" if "bloom_check bloom x = Inr True"
    using assms w same mono that by (rule check_mono)
  moreover have "run bloom [Check x] = Inr bloom"
    using assms by (simp add: bloom_check_eq)
  ultimately show ?thesis using r same mono by blast
qed

theorem monotonicity_witness:
  "wf filter_mono \<and> bit_at (a filter_mono) 0 \<and> bloom_check filter_mono ''ab'' = Inr True \<and>
   (\<exists>bloom'. run filter_mono [Add ''c'', Check ''ab'', Add ''defg''] = Inr bloom' \<and>
      bit_at (a bloom') 0 \<and> bloom_check bloom' ''ab'' = Inr True)"
proof -
  have w: "wf filter_mono"
    by (simp add: wf_def filter_mono_def INT_MAX_def)
  have b: "bit_at (a filter_mono) 0"
    by (simp add: filter_mono_def bit_at_def)
  have "indices filter_mono ''ab'' = [0, 0]"
    by (simp add: indices_def index_of_nat filter_mono_def)
  with b have c: "bloom_check filter_mono ''ab'' = Inr True"
    using w by (simp add: bloom_check_eq)
  have l: "0 < 8 * length (a filter_mono)" by (simp add: filter_mono_def)
  from monotonicity [OF w, of "[Add ''c'', Check ''ab'', Add ''defg'']" "''ab''"] b c l
  show ?thesis using w by blast
qed

text \<open>
  C5 (idempotence of add).  For every filter, key \<open>x\<close> and \<open>n \<ge> 1\<close>, calling
  \<open>bloom_add\<close> with \<open>x\<close> \<open>n\<close> times in succession returns exactly the filter that one call
  returns.
\<close>

theorem add_idempotent:
  fixes bloom :: "'w::len bloom_t"
  assumes "wf bloom" "1 \<le> n"
  shows "\<exists>bloom'. bloom_add bloom x = Inr bloom' \<and>
           run bloom (replicate n (Add x)) = Inr bloom'"
proof -
  let ?b = "bloom\<lparr>a := set_bits (a bloom) (indices bloom x)\<rparr>"
  have add: "bloom_add bloom x = Inr ?b" using assms(1) by (rule bloom_add_eq)
  have wf': "wf ?b" using assms(1) by (simp add: wf_update_a)
  have again: "bloom_add ?b x = Inr ?b"
    using wf' assms(1) by (simp add: bloom_add_eq set_bits_idem)
  have rep: "run ?b (replicate j (Add x)) = Inr ?b" for j
    by (induction j) (simp_all add: again)
  from assms(2) obtain j where "n = Suc j" by (cases n) auto
  then have "run bloom (replicate n (Add x)) = Inr ?b"
    using add rep by simp
  with add show ?thesis by blast
qed

theorem add_idempotent_witness:
  "wf filter8 \<and> (1::nat) \<le> 3 \<and>
   (\<exists>bloom'. bloom_add filter8 ''ab'' = Inr bloom' \<and>
      run filter8 [Add ''ab'', Add ''ab'', Add ''ab''] = Inr bloom')"
proof -
  have w: "wf filter8"
    by (simp add: wf_def filter8_def INT_MAX_def)
  have n: "(1::nat) \<le> 3" by simp
  have "replicate 3 (Add ''ab'') = [Add ''ab'', Add ''ab'', Add ''ab'']"
    by (simp add: eval_nat_numeral)
  with add_idempotent [OF w n, of "''ab''"] w show ?thesis by simp
qed

text \<open>
  C6 (empty filter), at the size \<open>2 ^ 64 - 1\<close>.  \<open>ROUND\<close> adds 7 to the size in
  \<open>size_t\<close> arithmetic, which wraps to 6, so \<open>calloc\<close> is asked for 0 bytes; when it returns
  a block, \<open>bloom_new\<close> returns a filter with \<open>m = 2 ^ 64 - 1\<close> whose array holds no byte,
  and \<open>bloom_check\<close> on this fresh filter reads outside the array for every key instead of
  returning false.  For the sizes from 1 to \<open>2 ^ 64 - 8\<close> the claim holds:
  \<open>empty_filter_in_range\<close>.
\<close>

theorem empty_filter_round_overflow:
  fixes h :: "'w::len hashfp_t"
  shows "bloom_new all_ok 18446744073709551615 1 [h] =
           Inr (Some \<lparr> a = [], hash = [h], k = 1, m = 18446744073709551615 \<rparr>) \<and>
         bloom_check \<lparr> a = [], hash = [h], k = 1, m = 18446744073709551615 \<rparr> s =
           Inl OutOfBounds"
proof -
  have r: "unat (ROUND 18446744073709551615) = 0"
    by (simp add: ROUND_def CHAR_BIT_def)
  have "bloom_new all_ok 18446744073709551615 1 [h] =
           Inr (Some \<lparr> a = [], hash = [h], k = 1, m = 18446744073709551615 \<rparr>)"
    using bloom_new_ok [of 1 "[h]" 18446744073709551615] by (simp add: INT_MAX_def r)
  moreover have "bloom_check \<lparr> a = [], hash = [h], k = 1, m = 18446744073709551615 \<rparr> s =
           Inl OutOfBounds"
    unfolding bloom_check_def
    by (subst check_loop.simps) (simp add: GETBIT_def Let_def)
  ultimately show ?thesis by simp
qed

text \<open>
  C7 (determinism).  Two filters that \<open>bloom_new\<close> returns for the same size and the same
  sequence of hash functions have the same array; the same sequence of \<open>bloom_add\<close> calls
  has the same outcome on both, and when it returns, the two resulting filters have the
  same array and \<open>bloom_check\<close> gives the same answer on both for every key.
\<close>

theorem determinism:
  fixes b1 b2 :: "'w::len bloom_t"
  assumes "bloom_new al1 sz num_hashes hashes = Inr (Some b1)"
    and "bloom_new al2 sz num_hashes hashes = Inr (Some b2)"
  shows "a b1 = a b2 \<and> run b1 (map Add xs) = run b2 (map Add xs) \<and>
         (\<forall>c1 c2. run b1 (map Add xs) = Inr c1 \<and> run b2 (map Add xs) = Inr c2 \<longrightarrow>
            a c1 = a c2 \<and> (\<forall>y. bloom_check c1 y = bloom_check c2 y))"
proof -
  have "b1 = b2"
    using bloom_new_Some(1) [OF assms(1)] bloom_new_Some(1) [OF assms(2)] by simp
  then show ?thesis by auto
qed

theorem determinism_witness:
  "\<exists>b1 b2 c1 c2.
     bloom_new all_ok 8 1 [\<lambda>s. 5 :: 32 word] = Inr (Some b1) \<and>
     bloom_new all_ok 8 1 [\<lambda>s. 5 :: 32 word] = Inr (Some b2) \<and>
     run b1 (map Add [''x'', ''y'']) = Inr c1 \<and> run b2 (map Add [''x'', ''y'']) = Inr c2 \<and>
     a c1 = a c2 \<and> bloom_check c1 ''z'' = bloom_check c2 ''z''"
proof -
  let ?b = "\<lparr> a = [0], hash = [\<lambda>s. 5 :: 32 word], k = 1, m = 8 \<rparr>"
  have r: "unat (ROUND 8) = Suc 0"
    by (simp add: ROUND_unat)
  have n: "bloom_new all_ok 8 1 [\<lambda>s. 5 :: 32 word] = Inr (Some ?b)"
    using bloom_new_ok [of 1 "[\<lambda>s. 5 :: 32 word]" 8] by (simp add: INT_MAX_def r)
  have "wf ?b" by (simp add: wf_def INT_MAX_def)
  from run_props [OF this, of "map Add [''x'', ''y'']"] obtain c where
    c: "run ?b (map Add [''x'', ''y'']) = Inr c" by blast
  from determinism [OF n n, of "[''x'', ''y'']"] c n show ?thesis by blast
qed

text \<open>
  C8 (forced collision).  For a single hash function \<open>h\<close> that returns the same value
  for the keys \<open>''a''\<close> and \<open>''b''\<close>, \<open>bloom_new\<close> with size 8 returns a filter, on which
  \<open>bloom_add\<close> of \<open>''a''\<close> returns a filter for which \<open>bloom_check\<close> of \<open>''b''\<close> is true.
\<close>

theorem forced_collision:
  fixes h :: "'w::len hashfp_t"
  assumes "h ''a'' = h ''b''"
  shows "\<exists>b0 b1. bloom_new all_ok 8 1 [h] = Inr (Some b0) \<and> m b0 = 8 \<and> k b0 = 1 \<and>
           hash b0 = [h] \<and> bloom_add b0 ''a'' = Inr b1 \<and> bloom_check b1 ''b'' = Inr True"
proof -
  let ?b0 = "\<lparr> a = replicate (unat (ROUND 8)) 0, hash = [h], k = 1, m = 8 \<rparr>"
  let ?b1 = "?b0\<lparr>a := set_bits (a ?b0) (indices ?b0 ''a'')\<rparr>"
  have n: "bloom_new all_ok 8 1 [h] = Inr (Some ?b0)"
    using bloom_new_ok [of 1 "[h]" 8] by (simp add: INT_MAX_def)
  have w: "wf ?b0" using n by (rule wf_new) simp_all
  have add: "bloom_add ?b0 ''a'' = Inr ?b1" using w by (rule bloom_add_eq)
  have w1: "wf ?b1" using w by (intro wf_update_a) simp_all
  have same: "indices ?b1 ''b'' = indices ?b1 ''a''"
    using assms by (simp add: indices_def)
  have "bloom_check ?b1 ''a'' = Inr True" using w by (rule check_after_add)
  then have "bloom_check ?b1 ''b'' = Inr True"
    using w1 same by (simp add: bloom_check_eq)
  with n add show ?thesis by (intro exI [of _ ?b0] exI [of _ ?b1]) simp
qed

theorem forced_collision_witness:
  "(\<lambda>s. 3 :: 32 word) ''a'' = (\<lambda>s. 3 :: 32 word) ''b'' \<and> ''a'' \<noteq> ''b'' \<and>
   (\<exists>b0 b1. bloom_new all_ok 8 1 [\<lambda>s. 3 :: 32 word] = Inr (Some b0) \<and> m b0 = 8 \<and> k b0 = 1 \<and>
      hash b0 = [\<lambda>s. 3 :: 32 word] \<and> bloom_add b0 ''a'' = Inr b1 \<and>
      bloom_check b1 ''b'' = Inr True)"
  using forced_collision [of "\<lambda>s. 3 :: 32 word"] by simp

text \<open>
  C9 (no hash functions).  \<open>bloom_new\<close> with \<open>num_hashes = 0\<close> returns a filter whenever
  its allocations succeed, for every size; all bits of this filter are false, every
  sequence of calls leaves it as it is, and \<open>bloom_check\<close> returns true for every key.
\<close>

theorem zero_hashes:
  fixes hashes :: "'w::len hashfp_t list"
  shows "\<exists>bloom. bloom_new all_ok sz 0 hashes = Inr (Some bloom) \<and>
           k bloom = 0 \<and> m bloom = sz \<and> hash bloom = [] \<and>
           a bloom = replicate (unat (ROUND sz)) 0 \<and>
           (\<forall>i < 8 * length (a bloom). \<not> bit_at (a bloom) i) \<and>
           (\<forall>s. bloom_check bloom s = Inr True) \<and>
           (\<forall>ops. run bloom ops = Inr bloom)"
proof -
  let ?b = "\<lparr> a = replicate (unat (ROUND sz)) 0, hash = ([] :: 'w hashfp_t list),
              k = 0, m = sz \<rparr>"
  have "bloom_new all_ok sz 0 hashes = Inr (Some ?b)"
    by (simp add: bloom_new_def all_ok_def new_loop_zero)
  moreover have "\<forall>i < 8 * length (a ?b). \<not> bit_at (a ?b) i"
    by (simp add: bit_at_replicate_0)
  moreover have "\<forall>s. bloom_check ?b s = Inr True"
    by (simp add: bloom_check_def check_loop_k0)
  moreover have "\<forall>ops. run ?b ops = Inr ?b"
    by (simp add: run_k0)
  ultimately show ?thesis by (intro exI [of _ ?b]) simp
qed

theorem zero_hashes_witness:
  "\<exists>bloom :: 32 bloom_t. bloom_new all_ok 8 0 [] = Inr (Some bloom) \<and> k bloom = 0 \<and>
     (0::nat) < 8 * length (a bloom) \<and> \<not> bit_at (a bloom) 0 \<and>
     bloom_check bloom ''apple'' = Inr True"
proof -
  have r: "unat (ROUND 8) = Suc 0"
    by (simp add: ROUND_unat)
  from zero_hashes [of 8 "[] :: 32 hashfp_t list"] obtain bloom :: "32 bloom_t" where
    b: "bloom_new all_ok 8 0 [] = Inr (Some bloom)" "k bloom = 0"
      "a bloom = replicate (unat (ROUND 8)) 0"
      "\<forall>i < 8 * length (a bloom). \<not> bit_at (a bloom) i"
      "\<forall>s. bloom_check bloom s = Inr True"
    by blast
  from b(3) r have "(0::nat) < 8 * length (a bloom)" by simp
  with b show ?thesis by blast
qed

text \<open>
  C10 (hash truncation).  For every filter and key, with the index
  \<open>trunc_index\<close>, the hash value modulo \<open>2 ^ 32\<close> and then modulo \<open>m\<close>: \<open>bloom_add\<close>
  sets exactly the bits with these indices, \<open>bloom_check\<close> tests exactly the bits with these
  indices, every such index is below \<open>2 ^ 32\<close>, no bit with an index of \<open>2 ^ 32\<close> or more is
  changed by \<open>bloom_add\<close>, and the answer of \<open>bloom_check\<close> is the same on every filter with
  the same \<open>m\<close>, \<open>k\<close> and table that agrees on the bits below \<open>2 ^ 32\<close>.
\<close>

theorem hash_truncation:
  fixes bloom :: "'w::len bloom_t"
  assumes "wf bloom"
  shows "\<exists>bloom'. bloom_add bloom s = Inr bloom' \<and>
           (\<forall>i < 8 * length (a bloom).
              bit_at (a bloom') i \<longleftrightarrow>
                bit_at (a bloom) i \<or> (\<exists>n < unat (k bloom). i = trunc_index bloom n s)) \<and>
           bloom_check bloom s =
             Inr (\<forall>n < unat (k bloom). bit_at (a bloom) (trunc_index bloom n s)) \<and>
           (\<forall>n < unat (k bloom). trunc_index bloom n s < 2 ^ 32) \<and>
           (\<forall>i. 2 ^ 32 \<le> i \<and> i < 8 * length (a bloom) \<longrightarrow>
              bit_at (a bloom') i = bit_at (a bloom) i) \<and>
           (\<forall>other. wf other \<and> m other = m bloom \<and> k other = k bloom \<and>
                hash other = hash bloom \<and>
                (\<forall>i < 2 ^ 32. bit_at (a other) i = bit_at (a bloom) i) \<longrightarrow>
              bloom_check other s = bloom_check bloom s)"
proof -
  let ?b = "bloom\<lparr>a := set_bits (a bloom) (indices bloom s)\<rparr>"
  have lt: "trunc_index bl n s < 2 ^ 32" for bl :: "'w bloom_t" and n
  proof -
    have "trunc_index bl n s \<le> unat ((hash bl ! n) s) mod 2 ^ 32"
      by (simp add: trunc_index_def)
    also have "\<dots> < 2 ^ 32" by simp
    finally show ?thesis .
  qed
  have mem: "i \<in> set (indices bloom s) \<longleftrightarrow> (\<exists>n < unat (k bloom). i = trunc_index bloom n s)"
    for i
    using assms by (rule in_set_indices)
  have bits: "bit_at (a ?b) i \<longleftrightarrow> bit_at (a bloom) i \<or> i \<in> set (indices bloom s)"
    if "i < 8 * length (a bloom)" for i
    using bit_at_after_add [OF assms that] by simp
  have add: "bloom_add bloom s = Inr ?b" using assms by (rule bloom_add_eq)
  have chk: "bloom_check bl s = Inr (\<forall>n < unat (k bl). bit_at (a bl) (trunc_index bl n s))"
    if "wf bl" for bl :: "'w bloom_t"
    unfolding bloom_check_eq [OF that] Ball_def in_set_indices [OF that] by auto
  have high: "bit_at (a ?b) i = bit_at (a bloom) i"
    if "2 ^ 32 \<le> i \<and> i < 8 * length (a bloom)" for i
  proof -
    have "i \<notin> set (indices bloom s)"
    proof
      assume "i \<in> set (indices bloom s)"
      then obtain n where "i = trunc_index bloom n s" using mem by blast
      with lt [of bloom n] that show False by simp
    qed
    with that bits show ?thesis by simp
  qed
  have indep: "bloom_check other s = bloom_check bloom s"
    if "wf other \<and> m other = m bloom \<and> k other = k bloom \<and> hash other = hash bloom \<and>
        (\<forall>i < 2 ^ 32. bit_at (a other) i = bit_at (a bloom) i)" for other
  proof -
    have "trunc_index other n s = trunc_index bloom n s" for n
      using that by (simp add: trunc_index_def)
    moreover have "bit_at (a other) (trunc_index bloom n s) = bit_at (a bloom) (trunc_index bloom n s)"
      for n
      using that lt [of bloom n] by blast
    ultimately show ?thesis
      using that assms by (simp add: chk)
  qed
  show ?thesis
    using add bits mem chk [OF assms] lt high indep
    by (intro exI [of _ ?b] conjI allI impI) auto
qed

theorem hash_truncation_witness:
  "wf big \<and> 2 ^ 32 < unat (m big) \<and> 2 ^ 32 \<le> unat ((hash big ! 0) ''x'') \<and>
   trunc_index big 0 ''x'' = 1 \<and>
   (\<exists>bloom'. bloom_add big ''x'' = Inr bloom' \<and>
      bit_at (a bloom') 1 \<and> \<not> bit_at (a bloom') 4294967297) \<and>
   wf big_other \<and> bit_at (a big_other) 4294967296 \<and> \<not> bit_at (a big) 4294967296 \<and>
   bloom_check big_other ''x'' = bloom_check big ''x''"
proof -
  have w: "wf big"
    by (simp add: wf_def big_def INT_MAX_def)
  have w': "wf big_other"
    by (simp add: wf_def big_other_def INT_MAX_def)
  have t: "trunc_index big 0 ''x'' = 1"
    by (simp add: trunc_index_def big_def)
  have z: "\<not> bit_at (a big) i" if "i < 4294967304" for i
    using that by (simp add: big_def bit_at_replicate_0)
  have o: "bit_at (a big_other) 4294967296"
    by (simp add: big_other_def bit_at_def nth_append)
  have agree: "\<forall>i < 2 ^ 32. bit_at (a big_other) i = bit_at (a big) i"
  proof (intro allI impI)
    fix i :: nat assume "i < 2 ^ 32"
    then have "i div 8 < 536870912" by simp
    then show "bit_at (a big_other) i = bit_at (a big) i"
      by (simp add: big_other_def big_def bit_at_def nth_append)
  qed
  from hash_truncation [OF w, of "''x''"] obtain bloom' where
    add: "bloom_add big ''x'' = Inr bloom'"
    and bits: "\<forall>i < 8 * length (a big).
       bit_at (a bloom') i \<longleftrightarrow> bit_at (a big) i \<or> (\<exists>n < unat (k big). i = trunc_index big n ''x'')"
    and high: "\<forall>i. 2 ^ 32 \<le> i \<and> i < 8 * length (a big) \<longrightarrow> bit_at (a bloom') i = bit_at (a big) i"
    and indep: "\<forall>other. wf other \<and> m other = m big \<and> k other = k big \<and>
                hash other = hash big \<and>
                (\<forall>i < 2 ^ 32. bit_at (a other) i = bit_at (a big) i) \<longrightarrow>
              bloom_check other ''x'' = bloom_check big ''x''"
    by blast
  have len: "8 * length (a big) = 4294967304" by (simp add: big_def)
  have k1: "unat (k big) = 1" by (simp add: big_def)
  have "bit_at (a bloom') 1"
    using bits [rule_format, of 1] t by (simp add: len k1)
  moreover have "\<not> bit_at (a bloom') 4294967297"
    using high [rule_format, of 4294967297] z [of 4294967297] by (simp add: len)
  moreover have "bloom_check big_other ''x'' = bloom_check big ''x''"
    using indep [rule_format, of big_other] w' agree by (simp add: big_other_def big_def)
  moreover have "2 ^ 32 < unat (m big)" "2 ^ 32 \<le> unat ((hash big ! 0) ''x'')"
    by (simp_all add: big_def)
  ultimately show ?thesis using w w' t o z [of 4294967296] add by auto
qed

end
